theory Spec2Isabelle
  imports Main "HOL-Library.Word"
begin

section \<open>Data model of BinaryTree.cpp\<close>

text \<open>
  A value of type \<open>('k, 'v) ptr\<close> is a \<^verbatim>\<open>std::unique_ptr<Node>\<close>: either
  \<^verbatim>\<open>nullptr\<close> or the owner of a node built by
  \<^verbatim>\<open>Node(key, value, left, right)\<close>. Ownership is exclusive, so a pointer and the
  subtree below it are the same thing.
\<close>

datatype ('k, 'v) ptr = Null | Node 'k 'v "('k, 'v) ptr" "('k, 'v) ptr"

text \<open>
  The two private fields of the class; \<open>size_field\<close> is the member \<^verbatim>\<open>size_\<close> (a
  name cannot end in an underscore here). \<^verbatim>\<open>size_t\<close> is taken as an unsigned
  64-bit integer, so \<^verbatim>\<open>++size_\<close> and \<^verbatim>\<open>--size_\<close> wrap around.
\<close>

record ('k, 'v) BinarySearchTreeMap =
  size_field :: "64 word"
  root :: "('k, 'v) ptr"

text \<open>The only exception the class throws, with the text passed to its constructor.\<close>

datatype error = invalid_argument string

section \<open>Operations\<close>

text \<open>The constructor \<^verbatim>\<open>BinarySearchTreeMap() : size_(0), root(nullptr)\<close>.\<close>

definition new_BinarySearchTreeMap :: "('k, 'v) BinarySearchTreeMap" where
  "new_BinarySearchTreeMap = \<lparr>size_field = 0, root = Null\<rparr>"

declare new_BinarySearchTreeMap_def [code_unfold]

definition size_map :: "('k, 'v) BinarySearchTreeMap \<Rightarrow> 64 word" where
  "size_map m = size_field m"

definition isEmpty :: "('k, 'v) BinarySearchTreeMap \<Rightarrow> bool" where
  "isEmpty m = (size_field m = 0)"

text \<open>
  The loop of \<^verbatim>\<open>put\<close>. The slot pointer \<^verbatim>\<open>ptr\<close> walks down from the slot it is
  given; the function returns what the loop hands back together with the contents of
  that slot afterwards. \<open>Some ret\<close> is the early \<^verbatim>\<open>return ret\<close> of the loop body,
  \<open>None\<close> is the exit of the loop at an empty slot followed by
  \<^verbatim>\<open>*ptr = std::make_unique<Node>(key, value)\<close>.
\<close>

fun put_walk :: "'k::linorder \<Rightarrow> 'v \<Rightarrow> ('k, 'v) ptr \<Rightarrow> 'v option \<times> ('k, 'v) ptr" where
  "put_walk key val Null = (None, Node key val Null Null)"
| "put_walk key val (Node current v l r) =
     (if current = key then (Some v, Node current val l r)
      else if key > current then
        (case put_walk key val r of (ret, r') \<Rightarrow> (ret, Node current v l r'))
      else
        (case put_walk key val l of (ret, l') \<Rightarrow> (ret, Node current v l' r)))"

definition put ::
  "'k::linorder \<Rightarrow> 'v \<Rightarrow> ('k, 'v) BinarySearchTreeMap \<Rightarrow> 'v option \<times> ('k, 'v) BinarySearchTreeMap" where
  "put key val m =
     (if root m = Null then
        (None, m\<lparr>root := Node key val Null Null, size_field := size_field m + 1\<rparr>)
      else
        (case put_walk key val (root m) of
           (Some ret, t) \<Rightarrow> (Some ret, m\<lparr>root := t\<rparr>)
         | (None, t) \<Rightarrow> (None, m\<lparr>root := t, size_field := size_field m + 1\<rparr>)))"

text \<open>
  The loop of \<^verbatim>\<open>remove\<close>, in the same style: the outcome (the exception, or the
  optional that is returned) and the contents of the slot afterwards.
\<close>

fun remove_walk :: "'k::linorder \<Rightarrow> ('k, 'v) ptr \<Rightarrow> (error + 'v option) \<times> ('k, 'v) ptr" where
  "remove_walk key Null = (Inr None, Null)"
| "remove_walk key (Node current v l r) =
     (if current = key then
        (if r \<noteq> Null \<or> l \<noteq> Null then
           (Inl (invalid_argument ''ERROR: Only leaf nodes can be removed.''), Node current v l r)
         else (Inr (Some v), Null))
      else if key > current then
        (case remove_walk key r of (res, r') \<Rightarrow> (res, Node current v l r'))
      else
        (case remove_walk key l of (res, l') \<Rightarrow> (res, Node current v l' r)))"

text \<open>
  \<^verbatim>\<open>remove\<close> returns the outcome and the state of the object afterwards (also when
  it throws: the caller may catch the exception and go on using the map).
  \<^verbatim>\<open>--size_\<close> runs only on the path that returns the removed value.
\<close>

definition remove ::
  "'k::linorder \<Rightarrow> ('k, 'v) BinarySearchTreeMap \<Rightarrow> (error + 'v option) \<times> ('k, 'v) BinarySearchTreeMap" where
  "remove key m =
     (case remove_walk key (root m) of
        (Inr (Some ret), t) \<Rightarrow> (Inr (Some ret), m\<lparr>root := t, size_field := size_field m - 1\<rparr>)
      | (res, t) \<Rightarrow> (res, m\<lparr>root := t\<rparr>))"

fun get_walk :: "'k::linorder \<Rightarrow> ('k, 'v) ptr \<Rightarrow> 'v option" where
  "get_walk key Null = None"
| "get_walk key (Node current v l r) =
     (if current = key then Some v
      else if key > current then get_walk key r
      else get_walk key l)"

text \<open>\<^verbatim>\<open>get\<close> is not declared const, so it returns the state as well.\<close>

definition get ::
  "'k::linorder \<Rightarrow> ('k, 'v) BinarySearchTreeMap \<Rightarrow> 'v option \<times> ('k, 'v) BinarySearchTreeMap" where
  "get key m = (get_walk key (root m), m)"

text \<open>
  The loop of \<^verbatim>\<open>toString\<close>. \<open>node\<close> is the raw pointer \<^verbatim>\<open>Node *node\<close>, \<open>stack\<close> the
  vector of raw pointers with its back at the head of the list, \<open>inOrder\<close> the text
  written to the stream so far. \<^verbatim>\<open>operator<<\<close> of the key and value types comes from
  outside the file and is passed in as \<open>showK\<close> and \<open>showV\<close>. The loop ends when the
  stack is empty and \<open>node\<close> is null. Taking a null pointer off the stack and reading
  its key would be undefined behaviour; that branch is \<open>None\<close>.
\<close>

fun weight :: "('k, 'v) ptr \<Rightarrow> nat" where
  "weight Null = 0"
| "weight (Node k v l r) = 2 + weight l + weight r"

fun pending :: "('k, 'v) ptr \<Rightarrow> nat" where
  "pending Null = 0"
| "pending (Node k v l r) = 1 + weight r"

function toString_loop ::
  "('k \<Rightarrow> string) \<Rightarrow> ('v \<Rightarrow> string) \<Rightarrow> ('k, 'v) ptr \<Rightarrow> ('k, 'v) ptr list \<Rightarrow> string \<Rightarrow> string option" where
  "toString_loop showK showV (Node k v l r) stack inOrder =
     toString_loop showK showV l (Node k v l r # stack) inOrder"
| "toString_loop showK showV Null (Node k v l r # stack) inOrder =
     toString_loop showK showV r stack (inOrder @ ''('' @ showK k @ '', '' @ showV v @ '') '')"
| "toString_loop showK showV Null (Null # stack) inOrder = None"
| "toString_loop showK showV Null [] inOrder = Some inOrder"
  by pat_completeness auto
termination
  by (relation "measure (\<lambda>(showK, showV, node, stack, inOrder). weight node + sum_list (map pending stack))")
     auto

definition toString ::
  "('k \<Rightarrow> string) \<Rightarrow> ('v \<Rightarrow> string) \<Rightarrow> ('k, 'v) BinarySearchTreeMap \<Rightarrow> string option" where
  "toString showK showV m =
     (case toString_loop showK showV (root m) [] ''[ '' of
        None \<Rightarrow> None
      | Some inOrder \<Rightarrow> Some (inOrder @ '']''))"

text \<open>
  A call of one of the three methods that walk the tree, and the state of the object
  after it. A caller that catches the exception of \<^verbatim>\<open>remove\<close> goes on with the
  object as \<^verbatim>\<open>remove\<close> left it. \<open>run cs\<close> is the state reached from a freshly
  constructed map by the calls \<open>cs\<close>, in order.
\<close>

datatype ('k, 'v) call = Put 'k 'v | Remove 'k | Get 'k

fun exec ::
  "('k::linorder, 'v) call \<Rightarrow> ('k, 'v) BinarySearchTreeMap \<Rightarrow> ('k, 'v) BinarySearchTreeMap" where
  "exec (Put k v) m = snd (put k v m)"
| "exec (Remove k) m = snd (remove k m)"
| "exec (Get k) m = snd (get k m)"

definition run :: "('k::linorder, 'v) call list \<Rightarrow> ('k, 'v) BinarySearchTreeMap" where
  "run cs = fold exec cs new_BinarySearchTreeMap"

section \<open>Vocabulary of the specification\<close>

text \<open>
  The functions of this section are not code of the program. They say what the
  specification talks about: the entries of a tree in in-order, its keys, its nodes, the
  ordering invariant, and the trees that detaching a leaf or overwriting a value should
  produce. Each one visits the whole tree; none follows the search walk.
\<close>

fun inorder :: "('k, 'v) ptr \<Rightarrow> ('k \<times> 'v) list" where
  "inorder Null = []"
| "inorder (Node k v l r) = inorder l @ (k, v) # inorder r"

fun keys :: "('k, 'v) ptr \<Rightarrow> 'k set" where
  "keys Null = {}"
| "keys (Node k v l r) = insert k (keys l \<union> keys r)"

fun num_nodes :: "('k, 'v) ptr \<Rightarrow> nat" where
  "num_nodes Null = 0"
| "num_nodes (Node k v l r) = 1 + num_nodes l + num_nodes r"

text \<open>The nodes reachable from a pointer, each given as the subtree it owns.\<close>

fun nodes :: "('k, 'v) ptr \<Rightarrow> ('k, 'v) ptr set" where
  "nodes Null = {}"
| "nodes (Node k v l r) = insert (Node k v l r) (nodes l \<union> nodes r)"

text \<open>
  The ordering invariant: at every node, the keys of the left subtree are smaller and
  the keys of the right subtree are greater than the node's key.
\<close>

fun bst :: "('k::linorder, 'v) ptr \<Rightarrow> bool" where
  "bst Null = True"
| "bst (Node k v l r) =
     ((\<forall>x \<in> keys l. x < k) \<and> (\<forall>x \<in> keys r. k < x) \<and> bst l \<and> bst r)"

text \<open>The tree with every leaf of key \<open>k\<close> detached, and nothing else changed.\<close>

fun clear_slot :: "'k \<Rightarrow> ('k, 'v) ptr \<Rightarrow> ('k, 'v) ptr" where
  "clear_slot k Null = Null"
| "clear_slot k (Node c v l r) =
     (if c = k \<and> l = Null \<and> r = Null then Null
      else Node c v (clear_slot k l) (clear_slot k r))"

text \<open>The tree with the value of every node of key \<open>k\<close> replaced, and nothing else changed.\<close>

fun overwrite :: "'k \<Rightarrow> 'v \<Rightarrow> ('k, 'v) ptr \<Rightarrow> ('k, 'v) ptr" where
  "overwrite k w Null = Null"
| "overwrite k w (Node c v l r) =
     Node c (if c = k then w else v) (overwrite k w l) (overwrite k w r)"

text \<open>The text \<^verbatim>\<open>"[ (k1, v1) (k2, v2) ... ]"\<close> for a list of entries.\<close>

definition entry :: "('k \<Rightarrow> string) \<Rightarrow> ('v \<Rightarrow> string) \<Rightarrow> 'k \<times> 'v \<Rightarrow> string" where
  "entry showK showV e = ''('' @ showK (fst e) @ '', '' @ showV (snd e) @ '') ''"

definition render :: "('k \<Rightarrow> string) \<Rightarrow> ('v \<Rightarrow> string) \<Rightarrow> ('k \<times> 'v) list \<Rightarrow> string" where
  "render showK showV es = ''[ '' @ concat (map (entry showK showV) es) @ '']''"

text \<open>
  \<open>untouched k cs m\<close>: run from the state \<open>m\<close>, none of the calls \<open>cs\<close> overwrites
  the key \<open>k\<close> (no \<^verbatim>\<open>put\<close> of \<open>k\<close>) or removes it (no \<^verbatim>\<open>remove\<close> of \<open>k\<close> that
  returns a value). \<open>puts_key k c\<close>: the call \<open>c\<close> is a \<^verbatim>\<open>put\<close> of the key \<open>k\<close>.
\<close>

fun untouched ::
  "'k::linorder \<Rightarrow> ('k, 'v) call list \<Rightarrow> ('k, 'v) BinarySearchTreeMap \<Rightarrow> bool" where
  "untouched k [] m = True"
| "untouched k (Put k' v # cs) m = (k' \<noteq> k \<and> untouched k cs (snd (put k' v m)))"
| "untouched k (Remove k' # cs) m =
     ((case fst (remove k' m) of Inr (Some v) \<Rightarrow> k' \<noteq> k | _ \<Rightarrow> True)
      \<and> untouched k cs (snd (remove k' m)))"
| "untouched k (Get k' # cs) m = untouched k cs (snd (get k' m))"

fun puts_key :: "'k \<Rightarrow> ('k, 'v) call \<Rightarrow> bool" where
  "puts_key k (Put k' v) = (k' = k)"
| "puts_key k (Remove k') = False"
| "puts_key k (Get k') = False"

section \<open>The driver\<close>

text \<open>
  \<^verbatim>\<open>main\<close> uses the map at \<^verbatim>\<open>int\<close> and \<^verbatim>\<open>std::string\<close>. The keys of the driver
  are the literals 0 to 8, so \<^verbatim>\<open>int\<close> is taken as \<open>int\<close>. Writing an \<^verbatim>\<open>int\<close> to a
  stream gives its decimal digits, with a minus sign when negative; writing a string
  gives the string.
\<close>

definition digit_char :: "nat \<Rightarrow> char" where
  "digit_char d =
     (if d = 0 then CHR ''0'' else if d = 1 then CHR ''1'' else if d = 2 then CHR ''2''
      else if d = 3 then CHR ''3'' else if d = 4 then CHR ''4'' else if d = 5 then CHR ''5''
      else if d = 6 then CHR ''6'' else if d = 7 then CHR ''7'' else if d = 8 then CHR ''8''
      else CHR ''9'')"

fun digits :: "nat \<Rightarrow> string" where
  "digits n = (if n < 10 then [digit_char n] else digits (n div 10) @ [digit_char (n mod 10)])"

definition show_int :: "int \<Rightarrow> string" where
  "show_int i = (if i < 0 then CHR ''-'' # digits (nat (- i)) else digits (nat i))"

definition show_string :: "string \<Rightarrow> string" where
  "show_string s = s"

text \<open>The state of \<^verbatim>\<open>tree\<close> in \<^verbatim>\<open>main\<close> after the eight calls of \<^verbatim>\<open>put\<close>.\<close>

definition main_tree :: "(int, string) BinarySearchTreeMap" where
  "main_tree =
     run [Put 4 ''four'', Put 5 ''five'', Put 3 ''three'', Put 1 ''one'',
          Put 6 ''six'', Put 0 ''zero'', Put 7 ''seven'', Put 2 ''two'']"

section \<open>Keys, entries and the ordering invariant\<close>

lemma keys_inorder: "keys t = fst ` set (inorder t)"
  by (induction t) auto

lemma set_keys: "set (map fst (inorder t)) = keys t"
  by (simp add: keys_inorder)

lemma length_inorder: "length (inorder t) = num_nodes t"
  by (induction t) simp_all

lemma finite_keys: "finite (keys t)"
  by (induction t) simp_all

lemma bst_sorted: "bst t \<Longrightarrow> sorted_wrt (<) (map fst (inorder t))"
proof (induction t)
  case Null
  then show ?case by simp
next
  case (Node c w l r)
  from Node.prems have lo: "\<forall>x \<in> keys l. x < c" and hi: "\<forall>y \<in> keys r. c < y"
    and bl: "bst l" and br: "bst r"
    by simp_all
  have cross: "\<forall>x \<in> keys l. \<forall>y \<in> keys r. x < y"
    using lo hi by (meson less_trans)
  have sl: "sorted_wrt (<) (map fst (inorder l))" and sr: "sorted_wrt (<) (map fst (inorder r))"
    using Node.IH bl br by simp_all
  have "sorted_wrt (<) (map fst (inorder l) @ c # map fst (inorder r))"
    unfolding sorted_wrt_append using sl sr lo hi cross
    by (simp add: set_keys del: set_map)
  then show ?case by simp
qed

lemma bst_distinct: "bst t \<Longrightarrow> distinct (map fst (inorder t))"
  using bst_sorted strict_sorted_iff by blast

lemma bst_card_keys: "bst t \<Longrightarrow> card (keys t) = num_nodes t"
proof -
  assume "bst t"
  then have "card (set (map fst (inorder t))) = length (map fst (inorder t))"
    by (intro distinct_card bst_distinct)
  then show ?thesis
    by (simp add: set_keys length_inorder del: set_map)
qed

section \<open>The walks\<close>

lemma fst_put_walk: "fst (put_walk k v t) = get_walk k t"
  by (induction t) (auto simp: case_prod_beta)

lemma keys_put_walk: "keys (snd (put_walk k v t)) = insert k (keys t)"
  by (induction t) (simp_all add: case_prod_beta insert_commute)

lemma bst_put_walk: "bst t \<Longrightarrow> bst (snd (put_walk k v t))"
proof (induction t)
  case Null
  then show ?case by simp
next
  case (Node c w l r)
  have kl: "keys (snd (put_walk k v l)) = insert k (keys l)"
    and kr: "keys (snd (put_walk k v r)) = insert k (keys r)"
    by (rule keys_put_walk)+
  from Node show ?case
    using kl kr by (auto simp: case_prod_beta)
qed

lemma get_walk_None: "k \<notin> keys t \<Longrightarrow> get_walk k t = None"
  by (induction t) auto

lemma get_walk_Some_keys: "get_walk k t = Some v \<Longrightarrow> k \<in> keys t"
  using get_walk_None by fastforce

lemma bst_get_walk: "bst t \<Longrightarrow> k \<in> keys t \<Longrightarrow> get_walk k t \<noteq> None"
  by (induction t) auto

lemma remove_walk_cases:
  "(\<exists>v. fst (remove_walk k t) = Inr (Some v)
        \<and> num_nodes t = Suc (num_nodes (snd (remove_walk k t))))
   \<or> ((\<forall>v. fst (remove_walk k t) \<noteq> Inr (Some v)) \<and> snd (remove_walk k t) = t)"
  by (induction t) (auto simp: case_prod_beta)

lemma keys_remove_walk: "keys (snd (remove_walk k t)) \<subseteq> keys t"
  by (induction t) (auto simp: case_prod_beta)

lemma bst_remove_walk: "bst t \<Longrightarrow> bst (snd (remove_walk k t))"
proof (induction t)
  case Null
  then show ?case by simp
next
  case (Node c w l r)
  have kl: "keys (snd (remove_walk k l)) \<subseteq> keys l"
    and kr: "keys (snd (remove_walk k r)) \<subseteq> keys r"
    by (rule keys_remove_walk)+
  from Node show ?case
    using kl kr by (auto simp: case_prod_beta)
qed

section \<open>The methods\<close>

lemma put_eq:
  "put k v m =
     (case get_walk k (root m) of
        Some ret \<Rightarrow> (Some ret, m\<lparr>root := snd (put_walk k v (root m))\<rparr>)
      | None \<Rightarrow> (None, m\<lparr>root := snd (put_walk k v (root m)), size_field := size_field m + 1\<rparr>))"
proof (cases "root m = Null")
  case True
  then show ?thesis by (simp add: put_def)
next
  case False
  obtain ret t where pw: "put_walk k v (root m) = (ret, t)"
    by fastforce
  then have "ret = get_walk k (root m)"
    using fst_put_walk [of k v "root m"] by simp
  with pw False show ?thesis
    by (simp add: put_def split: option.splits)
qed

lemma root_put: "root (snd (put k v m)) = snd (put_walk k v (root m))"
  by (simp add: put_eq split: option.splits)

lemma fst_put: "fst (put k v m) = get_walk k (root m)"
  by (simp add: put_eq split: option.splits)

lemma size_put:
  "size_field (snd (put k v m)) =
     (if get_walk k (root m) = None then size_field m + 1 else size_field m)"
  by (simp add: put_eq split: option.splits)

lemma root_remove: "root (snd (remove k m)) = snd (remove_walk k (root m))"
  by (auto simp: remove_def split: prod.splits option.splits sum.splits)

lemma fst_remove: "fst (remove k m) = fst (remove_walk k (root m))"
  by (auto simp: remove_def split: prod.splits option.splits sum.splits)

lemma size_remove:
  "size_field (snd (remove k m)) =
     (case fst (remove_walk k (root m)) of Inr (Some v) \<Rightarrow> size_field m - 1 | _ \<Rightarrow> size_field m)"
  by (auto simp: remove_def split: prod.splits option.splits sum.splits)

lemma bst_exec: "bst (root m) \<Longrightarrow> bst (root (exec c m))"
  by (cases c) (simp_all add: root_put root_remove bst_put_walk bst_remove_walk get_def)

lemma bst_fold: "bst (root m) \<Longrightarrow> bst (root (fold exec cs m))"
  by (induction cs arbitrary: m) (simp_all add: bst_exec)

lemma bst_run: "bst (root (run cs))"
  unfolding run_def by (rule bst_fold) (simp add: new_BinarySearchTreeMap_def)

section \<open>Removal and the count\<close>

lemma nodes_keys: "n \<in> nodes t \<Longrightarrow> keys n \<subseteq> keys t"
  by (induction t) auto

lemma node_key: "Node k v l r \<in> nodes t \<Longrightarrow> k \<in> keys t"
  using nodes_keys by fastforce

lemma remove_walk_absent: "k \<notin> keys t \<Longrightarrow> remove_walk k t = (Inr None, t)"
  by (induction t) auto

lemma clear_slot_absent: "k \<notin> keys t \<Longrightarrow> clear_slot k t = t"
  by (induction t) auto

lemma remove_walk_inner:
  "bst t \<Longrightarrow> Node k v l r \<in> nodes t \<Longrightarrow> l \<noteq> Null \<or> r \<noteq> Null \<Longrightarrow>
   remove_walk k t = (Inl (invalid_argument ''ERROR: Only leaf nodes can be removed.''), t)"
proof (induction t)
  case Null
  then show ?case by simp
next
  case (Node c w a b)
  from Node.prems(2) consider
      (here) "Node k v l r = Node c w a b"
    | (left) "Node k v l r \<in> nodes a"
    | (right) "Node k v l r \<in> nodes b"
    by auto
  then show ?case
  proof cases
    case here
    with Node.prems(3) show ?thesis by auto
  next
    case left
    then have "k \<in> keys a" by (rule node_key)
    with Node.prems(1) have "k < c" by simp
    then have "c \<noteq> k" "\<not> c < k" by auto
    moreover have "remove_walk k a = (Inl (invalid_argument ''ERROR: Only leaf nodes can be removed.''), a)"
      using Node.IH(1) Node.prems(1,3) left by simp
    ultimately show ?thesis by simp
  next
    case right
    then have "k \<in> keys b" by (rule node_key)
    with Node.prems(1) have "c < k" by simp
    then have "c \<noteq> k" "c < k" by auto
    moreover have "remove_walk k b = (Inl (invalid_argument ''ERROR: Only leaf nodes can be removed.''), b)"
      using Node.IH(2) Node.prems(1,3) right by simp
    ultimately show ?thesis by simp
  qed
qed

lemma remove_walk_leaf:
  "bst t \<Longrightarrow> Node k v Null Null \<in> nodes t \<Longrightarrow>
   remove_walk k t = (Inr (Some v), clear_slot k t)"
proof (induction t)
  case Null
  then show ?case by simp
next
  case (Node c w a b)
  from Node.prems(2) consider
      (here) "Node k v Null Null = Node c w a b"
    | (left) "Node k v Null Null \<in> nodes a"
    | (right) "Node k v Null Null \<in> nodes b"
    by auto
  then show ?case
  proof cases
    case here
    then show ?thesis by auto
  next
    case left
    then have ka: "k \<in> keys a" by (rule node_key)
    with Node.prems(1) have lt: "k < c" by simp
    with Node.prems(1) have "k \<notin> keys b" by auto
    then have cb: "clear_slot k b = b" by (rule clear_slot_absent)
    have "remove_walk k a = (Inr (Some v), clear_slot k a)"
      using Node.IH(1) Node.prems(1) left by simp
    moreover from lt have "c \<noteq> k" "\<not> c < k" by auto
    ultimately show ?thesis using cb by simp
  next
    case right
    then have kb: "k \<in> keys b" by (rule node_key)
    with Node.prems(1) have gt: "c < k" by simp
    with Node.prems(1) have "k \<notin> keys a" by auto
    then have ca: "clear_slot k a = a" by (rule clear_slot_absent)
    have "remove_walk k b = (Inr (Some v), clear_slot k b)"
      using Node.IH(2) Node.prems(1) right by simp
    moreover from gt have "c \<noteq> k" by auto
    ultimately show ?thesis using gt ca by simp
  qed
qed

lemma keys_clear_slot:
  "bst t \<Longrightarrow> Node k v Null Null \<in> nodes t \<Longrightarrow> keys (clear_slot k t) = keys t - {k}"
proof (induction t)
  case Null
  then show ?case by simp
next
  case (Node c w a b)
  from Node.prems(2) consider
      (here) "Node k v Null Null = Node c w a b"
    | (left) "Node k v Null Null \<in> nodes a"
    | (right) "Node k v Null Null \<in> nodes b"
    by auto
  then show ?case
  proof cases
    case here
    then show ?thesis by auto
  next
    case left
    then have ka: "k \<in> keys a" by (rule node_key)
    with Node.prems(1) have lt: "k < c" by simp
    with Node.prems(1) have nb: "k \<notin> keys b" by auto
    then have cb: "clear_slot k b = b" by (rule clear_slot_absent)
    have "keys (clear_slot k a) = keys a - {k}"
      using Node.IH(1) Node.prems(1) left by simp
    with lt cb nb show ?thesis by auto
  next
    case right
    then have kb: "k \<in> keys b" by (rule node_key)
    with Node.prems(1) have gt: "c < k" by simp
    with Node.prems(1) have na: "k \<notin> keys a" by auto
    then have ca: "clear_slot k a = a" by (rule clear_slot_absent)
    have "keys (clear_slot k b) = keys b - {k}"
      using Node.IH(2) Node.prems(1) right by simp
    with gt ca na show ?thesis by auto
  qed
qed

lemma get_walk_remove_walk:
  "k' \<noteq> k \<Longrightarrow> get_walk k' (snd (remove_walk k t)) = get_walk k' t"
  by (induction t) (auto simp: case_prod_beta)

lemma keys_remove_walk_other:
  "k' \<noteq> k \<Longrightarrow> k' \<in> keys t \<Longrightarrow> k' \<in> keys (snd (remove_walk k t))"
  by (induction t) (auto simp: case_prod_beta)

lemma num_nodes_put_walk:
  "num_nodes (snd (put_walk k v t)) = (if get_walk k t = None then Suc (num_nodes t) else num_nodes t)"
  by (induction t) (auto simp: case_prod_beta)

lemma counted_put:
  "size_field m = of_nat (num_nodes (root m)) \<Longrightarrow>
   size_field (snd (put k v m)) = of_nat (num_nodes (root (snd (put k v m))))"
  by (simp add: root_put size_put num_nodes_put_walk)

lemma counted_remove:
  "size_field m = of_nat (num_nodes (root m)) \<Longrightarrow>
   size_field (snd (remove k m)) = of_nat (num_nodes (root (snd (remove k m))))"
  using remove_walk_cases [of k "root m"]
  by (auto simp: root_remove size_remove split: sum.splits option.splits)

lemma counted_exec:
  "size_field m = of_nat (num_nodes (root m)) \<Longrightarrow>
   size_field (exec c m) = of_nat (num_nodes (root (exec c m)))"
  by (cases c) (simp_all add: counted_put counted_remove get_def)

lemma counted_fold:
  "size_field m = of_nat (num_nodes (root m)) \<Longrightarrow>
   size_field (fold exec cs m) = of_nat (num_nodes (root (fold exec cs m)))"
  by (induction cs arbitrary: m) (simp_all add: counted_exec)

lemma counted_run: "size_field (run cs) = of_nat (num_nodes (root (run cs)))"
  unfolding run_def by (rule counted_fold) (simp add: new_BinarySearchTreeMap_def)

lemma remove_success_removes:
  "fst (remove_walk k t) = Inr (Some v) \<Longrightarrow> num_nodes t = Suc (num_nodes (snd (remove_walk k t)))"
  using remove_walk_cases [of k t] by auto

lemma remove_failure_keeps:
  "\<forall>v. fst (remove_walk k t) \<noteq> Inr (Some v) \<Longrightarrow> snd (remove_walk k t) = t"
  using remove_walk_cases [of k t] by auto

section \<open>Lookup after a call\<close>

lemma get_walk_put_walk_same: "get_walk k (snd (put_walk k v t)) = Some v"
  by (induction t) (auto simp: case_prod_beta)

lemma get_walk_put_walk_other:
  "k' \<noteq> k \<Longrightarrow> get_walk k' (snd (put_walk k v t)) = get_walk k' t"
  by (induction t) (auto simp: case_prod_beta)

lemma get_walk_exec:
  "get_walk k (root m) = Some v \<Longrightarrow> untouched k [c] m \<Longrightarrow> get_walk k (root (exec c m)) = Some v"
proof (cases c)
  case (Put k' w)
  assume "get_walk k (root m) = Some v" "untouched k [c] m"
  with Put show ?thesis
    by (simp add: root_put get_walk_put_walk_other)
next
  case (Remove k')
  assume g: "get_walk k (root m) = Some v" and u: "untouched k [c] m"
  show ?thesis
  proof (cases "k' = k")
    case True
    with u Remove have "\<forall>x. fst (remove_walk k' (root m)) \<noteq> Inr (Some x)"
      by (auto simp: fst_remove)
    then have "snd (remove_walk k' (root m)) = root m"
      by (rule remove_failure_keeps)
    with g Remove show ?thesis by (simp add: root_remove)
  next
    case False
    then have "get_walk k (snd (remove_walk k' (root m))) = get_walk k (root m)"
      by (simp add: get_walk_remove_walk)
    with g Remove show ?thesis by (simp add: root_remove)
  qed
next
  case (Get k')
  assume "get_walk k (root m) = Some v"
  with Get show ?thesis by (simp add: get_def)
qed

lemma untouched_Cons: "untouched k (c # cs) m = (untouched k [c] m \<and> untouched k cs (exec c m))"
  by (cases c) simp_all

lemma get_walk_fold:
  "get_walk k (root m) = Some v \<Longrightarrow> untouched k cs m \<Longrightarrow>
   get_walk k (root (fold exec cs m)) = Some v"
proof (induction cs arbitrary: m)
  case Nil
  then show ?case by simp
next
  case (Cons c cs)
  from Cons.prems(2) have u1: "untouched k [c] m" and u2: "untouched k cs (exec c m)"
    using untouched_Cons [of k c cs m] by blast+
  from Cons.prems(1) u1 have "get_walk k (root (exec c m)) = Some v"
    by (rule get_walk_exec)
  from Cons.IH [OF this u2] show ?case by simp
qed

lemma keys_exec: "k \<in> keys (root (exec c m)) \<Longrightarrow> k \<in> keys (root m) \<or> puts_key k c"
proof (cases c)
  case (Put k' w)
  assume "k \<in> keys (root (exec c m))"
  with Put show ?thesis by (auto simp: root_put keys_put_walk)
next
  case (Remove k')
  assume "k \<in> keys (root (exec c m))"
  with Remove show ?thesis
    using keys_remove_walk [of k' "root m"] by (auto simp: root_remove)
next
  case (Get k')
  assume "k \<in> keys (root (exec c m))"
  with Get show ?thesis by (simp add: get_def)
qed

lemma keys_fold:
  "k \<in> keys (root (fold exec cs m)) \<Longrightarrow> k \<in> keys (root m) \<or> (\<exists>c \<in> set cs. puts_key k c)"
proof (induction cs arbitrary: m)
  case Nil
  then show ?case by simp
next
  case (Cons c cs)
  from Cons.prems have "k \<in> keys (root (fold exec cs (exec c m)))" by simp
  from Cons.IH [OF this] keys_exec [of k c m] show ?case by auto
qed

section \<open>Insertion\<close>

lemma put_walk_new_leaf:
  "k \<notin> keys t \<Longrightarrow> Node k v Null Null \<in> nodes (snd (put_walk k v t))"
  by (induction t) (auto simp: case_prod_beta)

lemma clear_slot_put_walk:
  "k \<notin> keys t \<Longrightarrow> clear_slot k (snd (put_walk k v t)) = t"
  by (induction t) (auto simp: case_prod_beta clear_slot_absent)

section \<open>Overwriting\<close>

lemma overwrite_absent: "k \<notin> keys t \<Longrightarrow> overwrite k w t = t"
  by (induction t) auto

lemma put_walk_overwrite:
  "bst t \<Longrightarrow> k \<in> keys t \<Longrightarrow> snd (put_walk k w t) = overwrite k w t"
proof (induction t)
  case Null
  then show ?case by simp
next
  case (Node c v l r)
  from Node.prems(1) have lo: "\<forall>x \<in> keys l. x < c" and hi: "\<forall>x \<in> keys r. c < x"
    and bl: "bst l" and br: "bst r"
    by simp_all
  consider (eq) "c = k" | (gt) "c < k" | (lt) "k < c"
    using less_linear by blast
  then show ?case
  proof cases
    case eq
    with lo hi have "k \<notin> keys l" "k \<notin> keys r" by auto
    then have "overwrite k w l = l" "overwrite k w r = r"
      by (simp_all add: overwrite_absent)
    with eq show ?thesis by simp
  next
    case gt
    with lo have nl: "k \<notin> keys l" by auto
    with gt Node.prems(2) have "k \<in> keys r" by auto
    with br have "snd (put_walk k w r) = overwrite k w r"
      by (rule Node.IH(2))
    moreover from nl have "overwrite k w l = l"
      by (rule overwrite_absent)
    moreover from gt have "c \<noteq> k" by auto
    ultimately show ?thesis using gt by (simp add: case_prod_beta)
  next
    case lt
    with hi have nr: "k \<notin> keys r" by auto
    with lt Node.prems(2) have "k \<in> keys l" by auto
    with bl have "snd (put_walk k w l) = overwrite k w l"
      by (rule Node.IH(1))
    moreover from nr have "overwrite k w r = r"
      by (rule overwrite_absent)
    moreover from lt have "c \<noteq> k" "\<not> c < k" by auto
    ultimately show ?thesis by (simp add: case_prod_beta)
  qed
qed

lemma filter_key_absent: "k \<notin> keys t \<Longrightarrow> filter (\<lambda>e. fst e = k) (inorder t) = []"
  by (induction t) auto

lemma filter_key:
  "bst t \<Longrightarrow> get_walk k t = Some v \<Longrightarrow> filter (\<lambda>e. fst e = k) (inorder t) = [(k, v)]"
proof (induction t)
  case Null
  then show ?case by simp
next
  case (Node c w l r)
  from Node.prems(1) have lo: "\<forall>x \<in> keys l. x < c" and hi: "\<forall>x \<in> keys r. c < x"
    and bl: "bst l" and br: "bst r"
    by simp_all
  consider (eq) "c = k" | (gt) "c < k" | (lt) "k < c"
    using less_linear by blast
  then show ?case
  proof cases
    case eq
    with lo hi have "k \<notin> keys l" "k \<notin> keys r" by auto
    then have "filter (\<lambda>e. fst e = k) (inorder l) = []" "filter (\<lambda>e. fst e = k) (inorder r) = []"
      by (simp_all add: filter_key_absent)
    with eq Node.prems(2) show ?thesis by simp
  next
    case gt
    with lo have "k \<notin> keys l" by auto
    then have fl: "filter (\<lambda>e. fst e = k) (inorder l) = []"
      by (rule filter_key_absent)
    from gt have ne: "c \<noteq> k" by auto
    with gt Node.prems(2) have "get_walk k r = Some v" by simp
    with br have "filter (\<lambda>e. fst e = k) (inorder r) = [(k, v)]"
      by (rule Node.IH(2))
    with fl ne show ?thesis by simp
  next
    case lt
    with hi have "k \<notin> keys r" by auto
    then have fr: "filter (\<lambda>e. fst e = k) (inorder r) = []"
      by (rule filter_key_absent)
    from lt have ne: "c \<noteq> k" "\<not> c < k" by auto
    with Node.prems(2) have "get_walk k l = Some v" by simp
    with bl have "filter (\<lambda>e. fst e = k) (inorder l) = [(k, v)]"
      by (rule Node.IH(1))
    with fr ne show ?thesis by simp
  qed
qed

section \<open>The traversal\<close>

lemma toString_loop_inorder:
  "toString_loop showK showV t stack acc =
   toString_loop showK showV Null stack (acc @ concat (map (entry showK showV) (inorder t)))"
proof (induction t arbitrary: stack acc)
  case Null
  then show ?case by simp
next
  case (Node k v l r)
  have "toString_loop showK showV (Node k v l r) stack acc =
        toString_loop showK showV l (Node k v l r # stack) acc"
    by simp
  also have "\<dots> = toString_loop showK showV Null (Node k v l r # stack)
        (acc @ concat (map (entry showK showV) (inorder l)))"
    by (rule Node.IH(1))
  also have "\<dots> = toString_loop showK showV r stack
        ((acc @ concat (map (entry showK showV) (inorder l))) @ entry showK showV (k, v))"
    by (simp add: entry_def)
  also have "\<dots> = toString_loop showK showV Null stack
        (((acc @ concat (map (entry showK showV) (inorder l))) @ entry showK showV (k, v))
          @ concat (map (entry showK showV) (inorder r)))"
    by (rule Node.IH(2))
  finally show ?case by simp
qed

lemma toString_render: "toString showK showV m = Some (render showK showV (inorder (root m)))"
proof -
  have "toString_loop showK showV (root m) [] ''[ '' =
        Some (''[ '' @ concat (map (entry showK showV) (inorder (root m))))"
    by (subst toString_loop_inorder) simp
  then show ?thesis
    by (simp add: toString_def render_def)
qed

lemma get_walk_map_of: "bst t \<Longrightarrow> get_walk k t = map_of (inorder t) k"
proof (induction t)
  case Null
  then show ?case by simp
next
  case (Node c w l r)
  from Node.prems have lo: "\<forall>x \<in> keys l. x < c" and hi: "\<forall>x \<in> keys r. c < x"
    and bl: "bst l" and br: "bst r"
    by simp_all
  have none: "map_of (inorder s) k = None" if "k \<notin> keys s" for s :: "('a, 'b) ptr"
    using that by (simp add: keys_inorder map_of_eq_None_iff)
  consider (eq) "c = k" | (gt) "c < k" | (lt) "k < c"
    using less_linear by blast
  then show ?case
  proof cases
    case eq
    with lo have "k \<notin> keys l" by auto
    with eq show ?thesis by (simp add: map_add_def none)
  next
    case gt
    with lo have "k \<notin> keys l" by auto
    moreover from gt have "c \<noteq> k" by auto
    ultimately show ?thesis using gt Node.IH(2) br by (simp add: map_add_def none)
  next
    case lt
    with hi have "k \<notin> keys r" by auto
    moreover from lt have "c \<noteq> k" "\<not> c < k" by auto
    ultimately show ?thesis using Node.IH(1) bl
      by (simp add: map_add_def none split: option.splits)
  qed
qed

lemma map_of_run_puts:
  "map_of (inorder (root (run (map (case_prod Put) kvs)))) = map_of (rev kvs)"
proof (induction kvs rule: rev_induct)
  case Nil
  show ?case by (simp add: run_def new_BinarySearchTreeMap_def)
next
  case (snoc kv kvs)
  obtain k v where kv: "kv = (k, v)" by (cases kv)
  let ?m = "run (map (case_prod Put) kvs)"
  have step: "run (map (case_prod Put) (kvs @ [kv])) = snd (put k v ?m)"
    by (simp add: run_def kv)
  have b: "bst (root ?m)" by (rule bst_run)
  then have b': "bst (snd (put_walk k v (root ?m)))" by (rule bst_put_walk)
  have "map_of (inorder (snd (put_walk k v (root ?m)))) x = ((map_of (rev kvs))(k \<mapsto> v)) x" for x
  proof -
    have "map_of (inorder (snd (put_walk k v (root ?m)))) x = get_walk x (snd (put_walk k v (root ?m)))"
      using b' by (simp add: get_walk_map_of)
    also have "\<dots> = (if x = k then Some v else get_walk x (root ?m))"
      by (simp add: get_walk_put_walk_same get_walk_put_walk_other)
    also have "\<dots> = (if x = k then Some v else map_of (rev kvs) x)"
      using b snoc.IH by (simp add: get_walk_map_of)
    finally show ?thesis by simp
  qed
  then have "map_of (inorder (snd (put_walk k v (root ?m)))) = (map_of (rev kvs))(k \<mapsto> v)"
    by (rule ext)
  then have lhs: "map_of (inorder (root (run (map (case_prod Put) (kvs @ [kv])))))
      = (map_of (rev kvs))(k \<mapsto> v)"
    by (simp only: step root_put)
  have rhs: "map_of (rev (kvs @ [kv])) = (map_of (rev kvs))(k \<mapsto> v)"
    by (simp add: kv)
  show ?case
    by (simp only: lhs rhs)
qed

section \<open>The claims\<close>

text \<open>
  Claim C1. In every state reached from a new map by any sequence of calls of
  \<^verbatim>\<open>put\<close>, \<^verbatim>\<open>get\<close> and \<^verbatim>\<open>remove\<close>, the ordering invariant holds at every node,
  and no key occurs at two nodes of the tree.
\<close>

theorem ordering_invariant:
  "bst (root (run cs)) \<and> distinct (map fst (inorder (root (run cs))))"
  by (simp add: bst_run bst_distinct)

theorem ordering_invariant_witness:
  "keys (root (run [Put (2::int) ''b'', Put 1 ''a'', Put 3 ''c'', Put 2 ''d'', Remove 3, Get 1, Put 5 ''e''])) = {1, 2, 5}
   \<and> bst (root (run [Put (2::int) ''b'', Put 1 ''a'', Put 3 ''c'', Put 2 ''d'', Remove 3, Get 1, Put 5 ''e'']))
   \<and> distinct (map fst (inorder (root (run [Put (2::int) ''b'', Put 1 ''a'', Put 3 ''c'', Put 2 ''d'', Remove 3, Get 1, Put 5 ''e'']))))"
  using ordering_invariant [of "[Put (2::int) ''b'', Put 1 ''a'', Put 3 ''c'', Put 2 ''d'', Remove 3, Get 1, Put 5 ''e'']"]
  by (simp add: run_def new_BinarySearchTreeMap_def put_def remove_def get_def insert_commute)

text \<open>
  Claim C2. In every state reached from a new map by calls of \<^verbatim>\<open>put\<close>, \<^verbatim>\<open>get\<close> and
  \<^verbatim>\<open>remove\<close>, \<^verbatim>\<open>size()\<close> is the number of nodes reachable from the root, which is
  the number of distinct keys present. \<^verbatim>\<open>size_t\<close> counts modulo \<open>2 ^ 64\<close>: the member is
  the node count as a 64-bit word, and it is the very number as long as the tree has
  fewer than \<open>2 ^ 64\<close> nodes (a 64-bit address space holds no more). A \<^verbatim>\<open>put\<close> of a key
  that is not present adds 1, a \<^verbatim>\<open>put\<close> of a key that is present changes nothing, a
  \<^verbatim>\<open>remove\<close> that returns a value subtracts 1, and a \<^verbatim>\<open>remove\<close> that throws or
  returns nothing changes nothing.
\<close>

theorem size_consistency:
  "size_map (run cs) = of_nat (num_nodes (root (run cs)))
   \<and> num_nodes (root (run cs)) = card (keys (root (run cs)))
   \<and> (num_nodes (root (run cs)) < 2 ^ 64 \<longrightarrow>
        unat (size_map (run cs)) = num_nodes (root (run cs)))
   \<and> (k1 \<notin> keys (root (run cs)) \<longrightarrow>
        size_map (snd (put k1 v1 (run cs))) = size_map (run cs) + 1)
   \<and> (k2 \<in> keys (root (run cs)) \<longrightarrow>
        size_map (snd (put k2 v2 (run cs))) = size_map (run cs))
   \<and> (fst (remove k3 (run cs)) = Inr (Some v3) \<longrightarrow>
        size_map (snd (remove k3 (run cs))) = size_map (run cs) - 1)
   \<and> (fst (remove k4 (run cs)) = Inl e \<or> fst (remove k4 (run cs)) = Inr None \<longrightarrow>
        size_map (snd (remove k4 (run cs))) = size_map (run cs))"
proof -
  let ?m = "run cs"
  have cnt: "size_field ?m = of_nat (num_nodes (root ?m))"
    by (rule counted_run)
  have ord: "bst (root ?m)"
    by (rule bst_run)
  have c1: "size_map ?m = of_nat (num_nodes (root ?m))"
    using cnt by (simp add: size_map_def)
  have c2: "num_nodes (root ?m) = card (keys (root ?m))"
    using ord by (simp add: bst_card_keys)
  have c3: "num_nodes (root ?m) < 2 ^ 64 \<longrightarrow> unat (size_map ?m) = num_nodes (root ?m)"
    using c1 by (simp add: unat_of_nat)
  have c4: "k1 \<notin> keys (root ?m) \<longrightarrow> size_map (snd (put k1 v1 ?m)) = size_map ?m + 1"
    by (simp add: size_map_def size_put get_walk_None)
  have c5: "k2 \<in> keys (root ?m) \<longrightarrow> size_map (snd (put k2 v2 ?m)) = size_map ?m"
    using ord bst_get_walk [of "root ?m" k2] by (auto simp: size_map_def size_put)
  have c6: "fst (remove k3 ?m) = Inr (Some v3) \<longrightarrow>
      size_map (snd (remove k3 ?m)) = size_map ?m - 1"
    by (simp add: size_map_def size_remove fst_remove)
  have c7: "fst (remove k4 ?m) = Inl e \<or> fst (remove k4 ?m) = Inr None \<longrightarrow>
      size_map (snd (remove k4 ?m)) = size_map ?m"
    by (auto simp: size_map_def size_remove fst_remove)
  from c1 c2 c3 c4 c5 c6 c7 show ?thesis by blast
qed

theorem size_consistency_witness:
  "num_nodes (root (run [Put (2::int) ''b'', Put 1 ''a'', Put 3 ''c''])) < 2 ^ 64
   \<and> unat (size_map (run [Put (2::int) ''b'', Put 1 ''a'', Put 3 ''c''])) = 3
   \<and> card (keys (root (run [Put (2::int) ''b'', Put 1 ''a'', Put 3 ''c'']))) = 3
   \<and> 5 \<notin> keys (root (run [Put (2::int) ''b'', Put 1 ''a'', Put 3 ''c'']))
   \<and> size_map (snd (put 5 ''e'' (run [Put (2::int) ''b'', Put 1 ''a'', Put 3 ''c'']))) = 4
   \<and> 1 \<in> keys (root (run [Put (2::int) ''b'', Put 1 ''a'', Put 3 ''c'']))
   \<and> size_map (snd (put 1 ''z'' (run [Put (2::int) ''b'', Put 1 ''a'', Put 3 ''c'']))) = 3
   \<and> fst (remove 3 (run [Put (2::int) ''b'', Put 1 ''a'', Put 3 ''c''])) = Inr (Some ''c'')
   \<and> size_map (snd (remove 3 (run [Put (2::int) ''b'', Put 1 ''a'', Put 3 ''c'']))) = 2
   \<and> fst (remove 2 (run [Put (2::int) ''b'', Put 1 ''a'', Put 3 ''c'']))
        = Inl (invalid_argument ''ERROR: Only leaf nodes can be removed.'')
   \<and> size_map (snd (remove 2 (run [Put (2::int) ''b'', Put 1 ''a'', Put 3 ''c'']))) = 3"
proof -
  let ?m = "run [Put (2::int) ''b'', Put 1 ''a'', Put 3 ''c'']"
  have n: "num_nodes (root ?m) = 3" by code_simp
  have h1: "5 \<notin> keys (root ?m)" by code_simp
  have h2: "1 \<in> keys (root ?m)" by code_simp
  have h3: "fst (remove 3 ?m) = Inr (Some ''c'')" by code_simp
  have h4: "fst (remove 2 ?m) = Inl (invalid_argument ''ERROR: Only leaf nodes can be removed.'')"
    by code_simp
  from size_consistency [of "[Put (2::int) ''b'', Put 1 ''a'', Put 3 ''c'']" 5 "''e''" 1 "''z''" 3 "''c''" 2
      "invalid_argument ''ERROR: Only leaf nodes can be removed.''"]
  show ?thesis using n h1 h2 h3 h4 by simp
qed

text \<open>
  Claim C3. In an ordered tree (and by C1 every reachable map is one), if the node of
  key \<open>k\<close> is present and has at least one child, \<^verbatim>\<open>remove(k)\<close> throws
  \<^verbatim>\<open>invalid_argument\<close> with exactly the message
  \<^verbatim>\<open>"ERROR: Only leaf nodes can be removed."\<close>, and the object (tree and count) is as
  it was before the call.
\<close>

theorem remove_inner_node:
  "bst (root m) \<Longrightarrow> Node k v l r \<in> nodes (root m) \<Longrightarrow> l \<noteq> Null \<or> r \<noteq> Null \<Longrightarrow>
   remove k m = (Inl (invalid_argument ''ERROR: Only leaf nodes can be removed.''), m)"
  by (simp add: remove_def remove_walk_inner)

theorem remove_inner_node_witness:
  "bst (root main_tree)
   \<and> Node 3 ''three'' (Node 1 ''one'' (Node 0 ''zero'' Null Null) (Node 2 ''two'' Null Null)) Null
        \<in> nodes (root main_tree)
   \<and> remove 3 main_tree = (Inl (invalid_argument ''ERROR: Only leaf nodes can be removed.''), main_tree)"
proof -
  have h1: "bst (root main_tree)" by code_simp
  have h2: "Node 3 ''three'' (Node 1 ''one'' (Node 0 ''zero'' Null Null) (Node 2 ''two'' Null Null)) Null
        \<in> nodes (root main_tree)" by code_simp
  have h3: "Node (1::int) ''one'' (Node 0 ''zero'' Null Null) (Node 2 ''two'' Null Null) \<noteq> Null \<or> (Null :: (int, string) ptr) \<noteq> Null"
    by simp
  from remove_inner_node [OF h1 h2 h3] h1 h2 show ?thesis by simp
qed

text \<open>
  Claim C4. In an ordered tree, if the node of key \<open>k\<close> is a leaf holding \<open>v\<close>,
  \<^verbatim>\<open>remove(k)\<close> returns \<open>v\<close>, the tree afterwards is the old tree with that leaf
  detached (one node fewer, the key \<open>k\<close> gone, all else in place), and the count is
  decremented by one. If the key is not in the tree, \<^verbatim>\<open>remove\<close> returns nothing,
  throws nothing, and the object is as it was.
\<close>

theorem remove_leaf_or_absent:
  "(bst (root m) \<and> Node k v Null Null \<in> nodes (root m) \<longrightarrow>
      fst (remove k m) = Inr (Some v)
      \<and> root (snd (remove k m)) = clear_slot k (root m)
      \<and> keys (root (snd (remove k m))) = keys (root m) - {k}
      \<and> num_nodes (root m) = Suc (num_nodes (root (snd (remove k m))))
      \<and> size_map (snd (remove k m)) = size_map m - 1
      \<and> (size_map m \<noteq> 0 \<longrightarrow> Suc (unat (size_map (snd (remove k m)))) = unat (size_map m)))
   \<and> (k' \<notin> keys (root m') \<longrightarrow> remove k' m' = (Inr None, m'))"
proof (intro conjI impI)
  assume a: "bst (root m) \<and> Node k v Null Null \<in> nodes (root m)"
  then have rw: "remove_walk k (root m) = (Inr (Some v), clear_slot k (root m))"
    by (simp add: remove_walk_leaf)
  show "fst (remove k m) = Inr (Some v)"
    by (simp add: fst_remove rw)
  show "root (snd (remove k m)) = clear_slot k (root m)"
    by (simp add: root_remove rw)
  show "keys (root (snd (remove k m))) = keys (root m) - {k}"
    using a keys_clear_slot [of "root m" k v] by (simp add: root_remove rw)
  show "num_nodes (root m) = Suc (num_nodes (root (snd (remove k m))))"
    using remove_success_removes [of k "root m" v] by (simp add: root_remove rw)
  show sz: "size_map (snd (remove k m)) = size_map m - 1"
    by (simp add: size_map_def size_remove rw)
  show "Suc (unat (size_map (snd (remove k m)))) = unat (size_map m)" if "size_map m \<noteq> 0"
  proof -
    from that have "0 < unat (size_map m)"
      by (simp add: unat_gt_0)
    with that show ?thesis
      unfolding sz by (simp add: unat_minus_one)
  qed
next
  assume "k' \<notin> keys (root m')"
  then show "remove k' m' = (Inr None, m')"
    by (simp add: remove_def remove_walk_absent)
qed

theorem remove_leaf_or_absent_witness:
  "bst (root main_tree) \<and> Node 2 ''two'' Null Null \<in> nodes (root main_tree)
   \<and> fst (remove 2 main_tree) = Inr (Some ''two'')
   \<and> root (snd (remove 2 main_tree)) = clear_slot 2 (root main_tree)
   \<and> keys (root (snd (remove 2 main_tree))) = keys (root main_tree) - {2}
   \<and> size_map main_tree \<noteq> 0
   \<and> Suc (unat (size_map (snd (remove 2 main_tree)))) = unat (size_map main_tree)
   \<and> 8 \<notin> keys (root main_tree)
   \<and> remove 8 main_tree = (Inr None, main_tree)"
proof -
  have h1: "bst (root main_tree)" by code_simp
  have h2: "Node 2 ''two'' Null Null \<in> nodes (root main_tree)" by code_simp
  have h3: "size_map main_tree \<noteq> 0" by code_simp
  have h4: "8 \<notin> keys (root main_tree)" by code_simp
  from remove_leaf_or_absent [of main_tree 2 "''two''" 8 main_tree] h1 h2 h3 h4
  show ?thesis by blast
qed

text \<open>
  Claim C5. Take any map, call \<^verbatim>\<open>put(k, v)\<close>, and then any calls that neither put the
  key \<open>k\<close> again nor remove it (a \<^verbatim>\<open>remove(k)\<close> that throws removes nothing):
  \<^verbatim>\<open>get(k)\<close> returns \<open>v\<close>. For a key that no call has ever put, on the new map in
  particular, \<^verbatim>\<open>get\<close> returns nothing. \<^verbatim>\<open>get\<close> leaves the object as it was.
\<close>

theorem get_round_trip:
  "(untouched k cs (snd (put k v m)) \<longrightarrow>
      fst (get k (fold exec cs (snd (put k v m)))) = Some v)
   \<and> ((\<forall>c \<in> set cs'. \<not> puts_key k' c) \<longrightarrow> fst (get k' (run cs')) = None)
   \<and> fst (get k' new_BinarySearchTreeMap) = None
   \<and> snd (get k'' m') = m'"
proof (intro conjI impI)
  assume u: "untouched k cs (snd (put k v m))"
  have "get_walk k (root (snd (put k v m))) = Some v"
    by (simp add: root_put get_walk_put_walk_same)
  from get_walk_fold [OF this u]
  show "fst (get k (fold exec cs (snd (put k v m)))) = Some v"
    by (simp add: get_def)
next
  assume n: "\<forall>c \<in> set cs'. \<not> puts_key k' c"
  have "k' \<notin> keys (root (run cs'))"
  proof
    assume "k' \<in> keys (root (run cs'))"
    then have "k' \<in> keys (root (fold exec cs' new_BinarySearchTreeMap))"
      by (simp add: run_def)
    from keys_fold [OF this] n show False
      by (simp add: new_BinarySearchTreeMap_def)
  qed
  then show "fst (get k' (run cs')) = None"
    by (simp add: get_def get_walk_None)
next
  show "fst (get k' new_BinarySearchTreeMap) = None"
    by (simp add: get_def new_BinarySearchTreeMap_def)
  show "snd (get k'' m') = m'"
    by (simp add: get_def)
qed

theorem get_round_trip_witness:
  "untouched 9 [Put 10 ''ten'', Remove 9, Remove 2, Get 3] (snd (put 9 ''nine'' main_tree))
   \<and> fst (get 9 (fold exec [Put 10 ''ten'', Remove 9, Remove 2, Get 3] (snd (put 9 ''nine'' main_tree))))
        = Some ''nine''
   \<and> \<not> puts_key 2 (Put (1::int) ''a'') \<and> \<not> puts_key 2 (Remove (1::int) :: (int, string) call)
   \<and> \<not> puts_key 2 (Put (3::int) ''c'') \<and> \<not> puts_key 2 (Remove (2::int) :: (int, string) call)
   \<and> fst (get 2 (run [Put (1::int) ''a'', Remove 1, Put 3 ''c'', Remove 2])) = None"
proof -
  let ?cs = "[Put 10 ''ten'', Remove 9, Remove 2, Get 3]"
  let ?cs' = "[Put (1::int) ''a'', Remove 1, Put 3 ''c'', Remove 2]"
  have h1: "untouched 9 ?cs (snd (put 9 ''nine'' main_tree))"
    by code_simp
  have h2: "\<forall>c \<in> set ?cs'. \<not> puts_key 2 c"
    by simp
  from get_round_trip [of 9 ?cs "''nine''" main_tree ?cs' 2]
  have a: "untouched 9 ?cs (snd (put 9 ''nine'' main_tree)) \<longrightarrow>
        fst (get 9 (fold exec ?cs (snd (put 9 ''nine'' main_tree)))) = Some ''nine''"
    and b: "(\<forall>c \<in> set ?cs'. \<not> puts_key 2 c) \<longrightarrow> fst (get 2 (run ?cs')) = None"
    by blast+
  from a h1 have r1: "fst (get 9 (fold exec ?cs (snd (put 9 ''nine'' main_tree)))) = Some ''nine''"
    by (rule mp)
  from b h2 have r2: "fst (get 2 (run ?cs')) = None"
    by (rule mp)
  have p: "\<not> puts_key 2 (Put (1::int) ''a'') \<and> \<not> puts_key 2 (Remove (1::int) :: (int, string) call)
      \<and> \<not> puts_key 2 (Put (3::int) ''c'') \<and> \<not> puts_key 2 (Remove (2::int) :: (int, string) call)"
    by simp
  from h1 r1 p r2 show ?thesis
    by (intro conjI) (simp_all only: simp_thms)
qed

text \<open>
  Claim C6. If the key \<open>k\<close> is not in the tree, \<^verbatim>\<open>put(k, v)\<close> returns nothing and
  adds 1 to the count. The tree afterwards has one node more, a leaf holding \<open>(k, v)\<close>;
  detaching that leaf gives back the tree of before, so nothing else has moved; the
  empty root becomes that leaf; and the leaf sits where the ordering invariant wants
  it, since an ordered tree stays ordered.
\<close>

theorem put_new_key:
  "k \<notin> keys (root m) \<Longrightarrow>
   fst (put k v m) = None
   \<and> size_map (snd (put k v m)) = size_map m + 1
   \<and> num_nodes (root (snd (put k v m))) = Suc (num_nodes (root m))
   \<and> Node k v Null Null \<in> nodes (root (snd (put k v m)))
   \<and> clear_slot k (root (snd (put k v m))) = root m
   \<and> keys (root (snd (put k v m))) = insert k (keys (root m))
   \<and> (root m = Null \<longrightarrow> root (snd (put k v m)) = Node k v Null Null)
   \<and> (bst (root m) \<longrightarrow> bst (root (snd (put k v m))))"
proof -
  assume a: "k \<notin> keys (root m)"
  then have g: "get_walk k (root m) = None"
    by (rule get_walk_None)
  have c1: "fst (put k v m) = None"
    using g by (simp add: fst_put)
  have c2: "size_map (snd (put k v m)) = size_map m + 1"
    using g by (simp add: size_map_def size_put)
  have c3: "num_nodes (root (snd (put k v m))) = Suc (num_nodes (root m))"
    using g by (simp add: root_put num_nodes_put_walk)
  have c4: "Node k v Null Null \<in> nodes (root (snd (put k v m)))"
    using a by (simp add: root_put put_walk_new_leaf)
  have c5: "clear_slot k (root (snd (put k v m))) = root m"
    using a by (simp add: root_put clear_slot_put_walk)
  have c6: "keys (root (snd (put k v m))) = insert k (keys (root m))"
    by (simp add: root_put keys_put_walk)
  have c7: "root m = Null \<longrightarrow> root (snd (put k v m)) = Node k v Null Null"
    by (simp add: root_put)
  have c8: "bst (root m) \<longrightarrow> bst (root (snd (put k v m)))"
    by (simp add: root_put bst_put_walk)
  from c1 c2 c3 c4 c5 c6 c7 c8 show ?thesis by blast
qed

theorem put_new_key_witness:
  "8 \<notin> keys (root main_tree) \<and> bst (root main_tree)
   \<and> fst (put 8 ''eight'' main_tree) = None
   \<and> size_map (snd (put 8 ''eight'' main_tree)) = size_map main_tree + 1
   \<and> Node 8 ''eight'' Null Null \<in> nodes (root (snd (put 8 ''eight'' main_tree)))
   \<and> clear_slot 8 (root (snd (put 8 ''eight'' main_tree))) = root main_tree
   \<and> bst (root (snd (put 8 ''eight'' main_tree)))
   \<and> (1::int) \<notin> keys (root (new_BinarySearchTreeMap :: (int, string) BinarySearchTreeMap))
   \<and> root (new_BinarySearchTreeMap :: (int, string) BinarySearchTreeMap) = Null
   \<and> root (snd (put (1::int) ''one'' new_BinarySearchTreeMap)) = Node 1 ''one'' Null Null"
proof -
  have h1: "8 \<notin> keys (root main_tree)" by code_simp
  have h2: "bst (root main_tree)" by code_simp
  have h3: "(1::int) \<notin> keys (root (new_BinarySearchTreeMap :: (int, string) BinarySearchTreeMap))"
    by (simp add: new_BinarySearchTreeMap_def)
  have h4: "root (new_BinarySearchTreeMap :: (int, string) BinarySearchTreeMap) = Null"
    by (simp add: new_BinarySearchTreeMap_def)
  from put_new_key [OF h1, of "''eight''"] put_new_key [OF h3, of "''one''"] h1 h2 h3 h4
  show ?thesis by blast
qed

text \<open>
  Claim C7. For every map, \<^verbatim>\<open>put(k, v1)\<close> followed by \<^verbatim>\<open>put(k, v2)\<close>: the second
  call returns \<open>v1\<close> and changes neither the count nor the number of nodes, and
  \<^verbatim>\<open>get(k)\<close> then returns \<open>v2\<close>. On an ordered tree the second call changes
  the value at the node of \<open>k\<close> and nothing else, and the in-order listing has
  exactly one entry of key \<open>k\<close>, which is \<open>(k, v2)\<close>.
\<close>

theorem put_overwrite:
  "fst (put k v2 (snd (put k v1 m))) = Some v1
   \<and> size_map (snd (put k v2 (snd (put k v1 m)))) = size_map (snd (put k v1 m))
   \<and> num_nodes (root (snd (put k v2 (snd (put k v1 m))))) = num_nodes (root (snd (put k v1 m)))
   \<and> fst (get k (snd (put k v2 (snd (put k v1 m))))) = Some v2
   \<and> (bst (root m) \<longrightarrow>
        root (snd (put k v2 (snd (put k v1 m)))) = overwrite k v2 (root (snd (put k v1 m)))
        \<and> filter (\<lambda>e. fst e = k) (inorder (root (snd (put k v2 (snd (put k v1 m)))))) = [(k, v2)])"
proof -
  let ?m1 = "snd (put k v1 m)"
  let ?m2 = "snd (put k v2 ?m1)"
  have g1: "get_walk k (root ?m1) = Some v1"
    by (simp add: root_put get_walk_put_walk_same)
  have g2: "get_walk k (root ?m2) = Some v2"
    by (simp add: root_put get_walk_put_walk_same)
  have c1: "fst (put k v2 ?m1) = Some v1"
    using g1 by (simp add: fst_put)
  have c2: "size_map ?m2 = size_map ?m1"
    using g1 by (simp add: size_map_def size_put)
  have c3: "num_nodes (root ?m2) = num_nodes (root ?m1)"
    using g1 by (simp add: root_put [of k v2] num_nodes_put_walk)
  have c4: "fst (get k ?m2) = Some v2"
    using g2 by (simp add: get_def)
  have c5: "root ?m2 = overwrite k v2 (root ?m1)
      \<and> filter (\<lambda>e. fst e = k) (inorder (root ?m2)) = [(k, v2)]" if b: "bst (root m)"
  proof
    from b have b1: "bst (root ?m1)"
      by (simp add: root_put bst_put_walk)
    then have b2: "bst (root ?m2)"
      by (simp add: root_put [of k v2] bst_put_walk)
    have "k \<in> keys (root ?m1)"
      using g1 by (rule get_walk_Some_keys)
    with b1 show "root ?m2 = overwrite k v2 (root ?m1)"
      by (simp add: root_put [of k v2] put_walk_overwrite)
    from b2 g2 show "filter (\<lambda>e. fst e = k) (inorder (root ?m2)) = [(k, v2)]"
      by (rule filter_key)
  qed
  from c1 c2 c3 c4 c5 show ?thesis by blast
qed

theorem put_overwrite_witness:
  "bst (root main_tree)
   \<and> fst (put 3 ''y'' (snd (put 3 ''x'' main_tree))) = Some ''x''
   \<and> size_map (snd (put 3 ''y'' (snd (put 3 ''x'' main_tree)))) = size_map (snd (put 3 ''x'' main_tree))
   \<and> root (snd (put 3 ''y'' (snd (put 3 ''x'' main_tree)))) = overwrite 3 ''y'' (root (snd (put 3 ''x'' main_tree)))
   \<and> filter (\<lambda>e. fst e = 3) (inorder (root (snd (put 3 ''y'' (snd (put 3 ''x'' main_tree)))))) = [(3, ''y'')]"
proof -
  have h: "bst (root main_tree)" by code_simp
  from put_overwrite [of 3 "''y''" "''x''" main_tree] h
  show ?thesis by blast
qed

text \<open>
  Claim C8. After any sequence of calls of \<^verbatim>\<open>put\<close> on a new map, \<^verbatim>\<open>toString()\<close>
  returns \<^verbatim>\<open>"[ "\<close>, then \<^verbatim>\<open>"(k, v) "\<close> for each entry of the in-order listing, then
  \<^verbatim>\<open>"]"\<close>. The keys of the listing ascend strictly, no entry occurs twice, and
  \<open>(k, v)\<close> is listed exactly when the last \<^verbatim>\<open>put\<close> of \<open>k\<close> was with \<open>v\<close>. The new
  map gives \<^verbatim>\<open>"[ ]"\<close>.
\<close>

theorem toString_in_order:
  "toString showK showV (run (map (case_prod Put) kvs))
     = Some (render showK showV (inorder (root (run (map (case_prod Put) kvs)))))
   \<and> sorted_wrt (<) (map fst (inorder (root (run (map (case_prod Put) kvs)))))
   \<and> distinct (inorder (root (run (map (case_prod Put) kvs))))
   \<and> ((k, v) \<in> set (inorder (root (run (map (case_prod Put) kvs)))) \<longleftrightarrow> map_of (rev kvs) k = Some v)
   \<and> toString showK showV new_BinarySearchTreeMap = Some ''[ ]''"
proof -
  let ?es = "inorder (root (run (map (case_prod Put) kvs)))"
  have b: "bst (root (run (map (case_prod Put) kvs)))" by (rule bst_run)
  have c1: "toString showK showV (run (map (case_prod Put) kvs)) = Some (render showK showV ?es)"
    by (rule toString_render)
  have c2: "sorted_wrt (<) (map fst ?es)"
    using b by (rule bst_sorted)
  have d: "distinct (map fst ?es)"
    using b by (rule bst_distinct)
  then have c3: "distinct ?es"
    by (simp add: distinct_map)
  have c4: "(k, v) \<in> set ?es \<longleftrightarrow> map_of (rev kvs) k = Some v"
    using d map_of_run_puts [of kvs] by (metis map_of_eq_Some_iff)
  have c5: "toString showK showV new_BinarySearchTreeMap = Some ''[ ]''"
    by (simp add: toString_render render_def new_BinarySearchTreeMap_def)
  from c1 c2 c3 c4 c5 show ?thesis by blast
qed

theorem toString_in_order_witness:
  "toString show_int show_string (run (map (case_prod Put) [(2, ''b''), (1, ''a''), (3, ''c''), (2, ''d'')]))
     = Some ''[ (1, a) (2, d) (3, c) ]''
   \<and> map_of (rev [(2::int, ''b''), (1, ''a''), (3, ''c''), (2, ''d'')]) 2 = Some ''d''
   \<and> (2, ''d'') \<in> set (inorder (root (run (map (case_prod Put) [(2::int, ''b''), (1, ''a''), (3, ''c''), (2, ''d'')]))))"
proof -
  let ?kvs = "[(2::int, ''b''), (1, ''a''), (3, ''c''), (2, ''d'')]"
  have e: "render show_int show_string (inorder (root (run (map (case_prod Put) ?kvs))))
      = ''[ (1, a) (2, d) (3, c) ]''"
    by code_simp
  have h: "map_of (rev ?kvs) 2 = Some ''d''"
    by simp
  from toString_in_order [of show_int show_string ?kvs 2 "''d''"]
  have "toString show_int show_string (run (map (case_prod Put) ?kvs))
          = Some (render show_int show_string (inorder (root (run (map (case_prod Put) ?kvs)))))"
    and "(2, ''d'') \<in> set (inorder (root (run (map (case_prod Put) ?kvs)))) \<longleftrightarrow> map_of (rev ?kvs) 2 = Some ''d''"
    by blast+
  with e h show ?thesis by (simp only:) 
qed

text \<open>
  Claim C9. The run of \<^verbatim>\<open>main\<close>: the new map has size 0; after the eight calls of
  \<^verbatim>\<open>put\<close> the size is 8; \<^verbatim>\<open>remove(2)\<close> returns \<^verbatim>\<open>"two"\<close> and the size is 7;
  \<^verbatim>\<open>remove(8)\<close> returns nothing and the size is 7; \<^verbatim>\<open>remove(4)\<close> throws
  \<^verbatim>\<open>invalid_argument\<close> with the fixed message and the size stays 7; \<^verbatim>\<open>get(5)\<close>
  returns \<^verbatim>\<open>"five"\<close> (the driver calls it twice); \<^verbatim>\<open>get(8)\<close> returns nothing;
  and \<^verbatim>\<open>toString()\<close> gives the seven remaining entries in ascending order of key.
\<close>

theorem main_scenario:
  "size_map (new_BinarySearchTreeMap :: (int, string) BinarySearchTreeMap) = 0
   \<and> size_map main_tree = 8
   \<and> fst (remove 2 main_tree) = Inr (Some ''two'')
   \<and> size_map (exec (Remove 2) main_tree) = 7
   \<and> fst (remove 8 (exec (Remove 2) main_tree)) = Inr None
   \<and> size_map (fold exec [Remove 2, Remove 8] main_tree) = 7
   \<and> fst (remove 4 (fold exec [Remove 2, Remove 8] main_tree))
       = Inl (invalid_argument ''ERROR: Only leaf nodes can be removed.'')
   \<and> size_map (fold exec [Remove 2, Remove 8, Remove 4] main_tree) = 7
   \<and> fst (get 5 (fold exec [Remove 2, Remove 8, Remove 4] main_tree)) = Some ''five''
   \<and> fst (get 8 (fold exec [Remove 2, Remove 8, Remove 4, Get 5, Get 5] main_tree)) = None
   \<and> toString show_int show_string
         (fold exec [Remove 2, Remove 8, Remove 4, Get 5, Get 5, Get 8] main_tree)
       = Some ''[ (0, zero) (1, one) (3, three) (4, four) (5, five) (6, six) (7, seven) ]''"
  by code_simp

text \<open>
  Claim C10. A \<^verbatim>\<open>remove(k)\<close> that returns a value (as it does when \<open>k\<close> sits at a leaf
  of an ordered tree) changes no other entry: for every other key, \<^verbatim>\<open>get\<close> returns
  afterwards what it returned before, and a key that was in the tree is still in it.
\<close>

theorem remove_frame:
  "fst (remove k m) = Inr (Some v) \<or> (bst (root m) \<and> Node k v Null Null \<in> nodes (root m)) \<Longrightarrow>
   k' \<noteq> k \<Longrightarrow>
   fst (get k' (snd (remove k m))) = fst (get k' m)
   \<and> (k' \<in> keys (root m) \<longrightarrow> k' \<in> keys (root (snd (remove k m))))"
  by (simp add: get_def root_remove get_walk_remove_walk keys_remove_walk_other)

theorem remove_frame_witness:
  "fst (remove 2 main_tree) = Inr (Some ''two'') \<and> (1::int) \<noteq> 2
   \<and> fst (get 1 (snd (remove 2 main_tree))) = Some ''one''
   \<and> 1 \<in> keys (root main_tree) \<and> 1 \<in> keys (root (snd (remove 2 main_tree)))"
proof -
  have h1: "fst (remove 2 main_tree) = Inr (Some ''two'')" by code_simp
  have h2: "(1::int) \<noteq> 2" by simp
  have h3: "fst (get 1 main_tree) = Some ''one''" by code_simp
  have h4: "1 \<in> keys (root main_tree)" by code_simp
  from remove_frame [of 2 main_tree "''two''" 1] h1 h2 h3 h4 show ?thesis by simp
qed

end
